theory Spec2Isabelle
  imports Main "HOL-Library.AList" "HOL-Library.Sublist" "HOL-Library.Multiset"
begin

section \<open>Data model of \<^verbatim>\<open>csp_solver.py\<close>\<close>

text \<open>
  A Python \<^verbatim>\<open>dict\<close> is an association list in insertion order. A key denotes its
  first binding (\<open>map_of\<close>); \<^verbatim>\<open>d[k] = v\<close> is \<open>AList.update\<close>, which keeps the place of
  a key already present and appends a new key at the end, as Python does; iterating a dict
  lists each key once (\<open>AList.clearjunk\<close>, the identity on a list with distinct keys).
  A missing key raises \<^verbatim>\<open>KeyError\<close>.
\<close>

datatype py_error = KeyError

type_synonym ('k, 'v) dict = "('k \<times> 'v) list"

definition dict_get :: "('k, 'v) dict \<Rightarrow> 'k \<Rightarrow> py_error + 'v" where
  "dict_get d k = (case map_of d k of None \<Rightarrow> Inl KeyError | Some v \<Rightarrow> Inr v)"

definition dict_items :: "('k, 'v) dict \<Rightarrow> ('k \<times> 'v) list" where
  "dict_items d = AList.clearjunk d"

definition dict_keys :: "('k, 'v) dict \<Rightarrow> 'k list" where
  "dict_keys d = map fst (dict_items d)"

definition dict_values :: "('k, 'v) dict \<Rightarrow> 'v list" where
  "dict_values d = map snd (dict_items d)"

text \<open>Variable names are strings, as in the instance builders of the repository.\<close>

type_synonym var = string
type_synonym arc = "var \<times> var"
type_synonym 'a assignment = "(var, 'a list) dict"

record 'a CSP =
  variables :: "var list"
  domains :: "(var, 'a list) dict"
  constraints :: "(var, (var, ('a \<times> 'a) list) dict) dict"
  backtrack_count :: nat
  backtrack_failure_count :: nat

definition CSP_init :: "'a CSP" where
  "CSP_init = \<lparr>variables = [], domains = [], constraints = [],
               backtrack_count = 0, backtrack_failure_count = 0\<rparr>"

section \<open>Constraint graph\<close>

definition add_variable :: "'a CSP \<Rightarrow> var \<Rightarrow> 'a list \<Rightarrow> 'a CSP" where
  "add_variable csp name domain =
     csp\<lparr>variables := variables csp @ [name],
         domains := AList.update name domain (domains csp),
         constraints := AList.update name [] (constraints csp)\<rparr>"

definition get_all_possible_pairs :: "'a list \<Rightarrow> 'b list \<Rightarrow> ('a \<times> 'b) list" where
  "get_all_possible_pairs a b = List.product a b"

definition get_all_arcs :: "'a CSP \<Rightarrow> arc list" where
  "get_all_arcs csp =
     concat (map (\<lambda>i. map (\<lambda>j. (i, j)) (case map_of (constraints csp) i of
                                              None \<Rightarrow> [] | Some c_i \<Rightarrow> dict_keys c_i))
                 (dict_keys (constraints csp)))"

definition get_all_neighboring_arcs :: "'a CSP \<Rightarrow> var \<Rightarrow> py_error + arc list" where
  "get_all_neighboring_arcs csp var =
     (case dict_get (constraints csp) var of
        Inl e \<Rightarrow> Inl e
      | Inr c_var \<Rightarrow> Inr (map (\<lambda>i. (i, var)) (dict_keys c_var)))"

definition add_constraint_one_way ::
    "'a CSP \<Rightarrow> var \<Rightarrow> var \<Rightarrow> ('a \<Rightarrow> 'a \<Rightarrow> bool) \<Rightarrow> py_error + 'a CSP" where
  "add_constraint_one_way csp i j filter_function =
     (case dict_get (constraints csp) i of
        Inl e \<Rightarrow> Inl e
      | Inr c_i \<Rightarrow>
          (case (case map_of c_i j of
                   Some pairs \<Rightarrow> Inr pairs
                 | None \<Rightarrow>
                     (case dict_get (domains csp) i of
                        Inl e \<Rightarrow> Inl e
                      | Inr d_i \<Rightarrow>
                          (case dict_get (domains csp) j of
                             Inl e \<Rightarrow> Inl e
                           | Inr d_j \<Rightarrow> Inr (get_all_possible_pairs d_i d_j)))) of
             Inl e \<Rightarrow> Inl e
           | Inr pairs \<Rightarrow>
               Inr (csp\<lparr>constraints :=
                      AList.update i
                        (AList.update j (filter (\<lambda>(x, y). filter_function x y) pairs) c_i)
                        (constraints csp)\<rparr>)))"

section \<open>Arc consistency\<close>

text \<open>
  The loop of \<^verbatim>\<open>revise\<close> iterates over the list \<^verbatim>\<open>legal_values_i\<close> while removing from
  it. Python's list iterator keeps an index \<open>k\<close>: each round reads the element at \<open>k\<close> of the
  list as it is then and advances \<open>k\<close>, and stops once \<open>k\<close> is no longer below the current
  length. \<^verbatim>\<open>list.remove(x)\<close> deletes the first element equal to \<open>x\<close> (\<open>remove1\<close>). When
  \<open>i = j\<close> the two names \<^verbatim>\<open>legal_values_i\<close> and \<^verbatim>\<open>legal_values_j\<close> denote the same list
  object (\<open>same\<close>), so a removal is seen through both.
\<close>

function revise_loop ::
    "('a \<times> 'a) list \<Rightarrow> bool \<Rightarrow> 'a list \<Rightarrow> 'a list \<Rightarrow> nat \<Rightarrow> bool \<Rightarrow> 'a list \<times> bool" where
  "revise_loop constraints_ij same legal_values_i legal_values_j k revised =
     (if k < length legal_values_i then
        (let x = legal_values_i ! k;
             pairs = get_all_possible_pairs [x] (if same then legal_values_i else legal_values_j)
         in if (\<exists>pair \<in> set pairs. pair \<in> set constraints_ij)
            then revise_loop constraints_ij same legal_values_i legal_values_j (k + 1) revised
            else (let legal_values_i' = remove1 x legal_values_i
                  in if legal_values_i' = [] then (legal_values_i', True)
                     else revise_loop constraints_ij same legal_values_i' legal_values_j
                            (k + 1) True))
      else (legal_values_i, revised))"
  by pat_completeness auto
termination
  by (relation "measure (\<lambda>(c, s, li, lj, k, r). length li - k)")
     (auto simp: length_remove1)

definition revise ::
    "'a CSP \<Rightarrow> 'a assignment \<Rightarrow> var \<Rightarrow> var \<Rightarrow> py_error + ('a assignment \<times> bool)" where
  "revise csp assignment i j =
     (case dict_get (constraints csp) i of
        Inl e \<Rightarrow> Inl e
      | Inr c_i \<Rightarrow>
     (case dict_get c_i j of
        Inl e \<Rightarrow> Inl e
      | Inr constraints_ij \<Rightarrow>
     (case dict_get assignment i of
        Inl e \<Rightarrow> Inl e
      | Inr legal_values_i \<Rightarrow>
     (case dict_get assignment j of
        Inl e \<Rightarrow> Inl e
      | Inr legal_values_j \<Rightarrow>
          (case revise_loop constraints_ij (i = j) legal_values_i legal_values_j 0 False of
             (legal_values_i', revised) \<Rightarrow>
               Inr (AList.update i legal_values_i' assignment, revised))))))"

text \<open>The size of an assignment: the number of candidate values it still holds.\<close>

definition assignment_size :: "'a assignment \<Rightarrow> nat" where
  "assignment_size assignment = sum_list (map length (dict_values assignment))"

lemma revise_loop_length:
  "revise_loop c s li lj k r = (li', r') \<Longrightarrow>
     length li' \<le> length li \<and> (r' \<longrightarrow> r \<or> length li' < length li)"
proof (induction c s li lj k r rule: revise_loop.induct)
  case (1 c s li lj k r)
  show ?case
  proof (cases "k < length li")
    case False
    with "1.prems" show ?thesis by simp
  next
    case True
    note k = True
    let ?x = "li ! k"
    let ?pairs = "get_all_possible_pairs [?x] (if s then li else lj)"
    have xin: "?x \<in> set li" using k by simp
    show ?thesis
    proof (cases "\<exists>pair \<in> set ?pairs. pair \<in> set c")
      case True
      with k "1.prems" have "revise_loop c s li lj (k + 1) r = (li', r')"
        by (simp add: Let_def)
      from "1.IH"(1)[OF k refl refl True this] show ?thesis .
    next
      case False
      note unsup = False
      show ?thesis
      proof (cases "remove1 ?x li = []")
        case True
        with k unsup "1.prems" have "li' = []" "r'"
          by (simp_all add: Let_def)
        with k show ?thesis by auto
      next
        case False
        with k unsup "1.prems"
        have "revise_loop c s (remove1 ?x li) lj (k + 1) True = (li', r')"
          by (simp add: Let_def)
        from "1.IH"(2)[OF k refl refl unsup refl False this]
        have "length li' \<le> length (remove1 ?x li)" by simp
        moreover have "length (remove1 ?x li) < length li"
          using xin k by (simp add: length_remove1)
        ultimately show ?thesis by simp
      qed
    qed
  qed
qed

lemma sum_length_update:
  "distinct (map fst d) \<Longrightarrow> map_of d k = Some old \<Longrightarrow>
   sum_list (map (length \<circ> snd) (AList.update k v d)) + length old
     = sum_list (map (length \<circ> snd) d) + length v"
  by (induction d) (auto split: if_splits)

lemma assignment_size_update:
  assumes "map_of d k = Some old"
  shows "assignment_size (AList.update k v d) + length old = assignment_size d + length v"
proof -
  have "map_of (AList.clearjunk d) k = Some old"
    using assms by (simp add: map_of_clearjunk)
  from sum_length_update[OF distinct_clearjunk this, of v] show ?thesis
    by (simp add: assignment_size_def dict_values_def dict_items_def clearjunk_update comp_def)
qed

lemma revise_size:
  assumes "revise csp asg i j = Inr (asg', r)"
  shows "assignment_size asg' \<le> assignment_size asg \<and> (r \<longrightarrow> assignment_size asg' < assignment_size asg)"
proof -
  from assms obtain c_i tbl li lj li' where
    li: "map_of asg i = Some li" and
    loop: "revise_loop tbl (i = j) li lj 0 False = (li', r)" and
    asg': "asg' = AList.update i li' asg"
    by (auto simp: revise_def dict_get_def split: option.splits sum.splits prod.splits)
  from revise_loop_length[OF loop] have "length li' \<le> length li" "r \<longrightarrow> length li' < length li"
    by auto
  with assignment_size_update[OF li, of li'] asg' show ?thesis by auto
qed

fun enqueue_neighbors :: "var \<Rightarrow> var \<Rightarrow> arc list \<Rightarrow> arc list \<Rightarrow> arc list" where
  "enqueue_neighbors x_i x_j [] queue = queue"
| "enqueue_neighbors x_i x_j ((x_k, _) # arcs) queue =
     (if x_k = x_j then enqueue_neighbors x_i x_j arcs queue
      else if (x_k, x_i) \<in> set queue then enqueue_neighbors x_i x_j arcs queue
      else enqueue_neighbors x_i x_j arcs (queue @ [(x_k, x_i)]))"

function inference ::
    "'a CSP \<Rightarrow> 'a assignment \<Rightarrow> arc list \<Rightarrow> py_error + ('a assignment \<times> bool)" where
  "inference csp assignment [] = Inr (assignment, True)"
| "inference csp assignment ((x_i, x_j) # queue) =
     (case revise csp assignment x_i x_j of
        Inl e \<Rightarrow> Inl e
      | Inr (assignment', revised) \<Rightarrow>
          if revised then
            (case dict_get (domains csp) x_i of
               Inl e \<Rightarrow> Inl e
             | Inr d_i \<Rightarrow>
                 if d_i = [] then Inr (assignment', False)
                 else (case get_all_neighboring_arcs csp x_i of
                         Inl e \<Rightarrow> Inl e
                       | Inr arcs \<Rightarrow>
                           inference csp assignment' (enqueue_neighbors x_i x_j arcs queue)))
          else inference csp assignment' queue)"
  by pat_completeness auto
termination
proof (relation "measures [\<lambda>(csp, a, q). assignment_size a, \<lambda>(csp, a, q). length q]",
       goal_cases)
  case 1
  show ?case by simp
next
  case (2 csp assignment x_i x_j queue x2 assignment' revised x2a x2b)
  then have "revise csp assignment x_i x_j = Inr (assignment', True)" by simp
  from revise_size[OF this] show ?case by simp
next
  case (3 csp assignment x_i x_j queue x2 assignment' revised)
  then have "revise csp assignment x_i x_j = Inr (assignment', revised)" by simp
  from revise_size[OF this] show ?case by auto
qed

definition min_key :: "('k \<Rightarrow> nat) \<Rightarrow> 'k \<Rightarrow> 'k list \<Rightarrow> 'k" where
  "min_key key first rest = fold (\<lambda>item best. if key item < key best then item else best) rest first"

definition select_unassigned_variable :: "'a assignment \<Rightarrow> var option" where
  "select_unassigned_variable assignment =
     (case map fst (filter (\<lambda>item. length (snd item) > 1) (dict_items assignment)) of
        [] \<Rightarrow> None
      | first # rest \<Rightarrow>
          Some (min_key (\<lambda>key. case map_of assignment key of
                                   None \<Rightarrow> 0 | Some values \<Rightarrow> length values)
                        first rest))"

section \<open>Backtracking search\<close>

lemma inference_size:
  "inference csp a q = Inr (a', r) \<Longrightarrow> assignment_size a' \<le> assignment_size a"
proof (induction csp a q arbitrary: a' r rule: inference.induct)
  case (1 csp assignment)
  then show ?case by simp
next
  case (2 csp assignment x_i x_j queue)
  from "2.prems" obtain a1 rev where
    rv: "revise csp assignment x_i x_j = Inr (a1, rev)"
    by (auto split: sum.splits)
  note sz = revise_size[OF rv]
  show ?case
  proof (cases rev)
    case False
    with "2.prems" rv have "inference csp a1 queue = Inr (a', r)" by simp
    from "2.IH"(2)[OF rv refl False this] sz show ?thesis by simp
  next
    case True
    with "2.prems" rv obtain d_i where
      d: "dict_get (domains csp) x_i = Inr d_i"
      by (auto split: sum.splits)
    show ?thesis
    proof (cases "d_i = []")
      case True
      with "2.prems" rv \<open>rev\<close> d have "a' = a1" by simp
      with sz show ?thesis by simp
    next
      case False
      with "2.prems" rv \<open>rev\<close> d obtain arcs where
        n: "get_all_neighboring_arcs csp x_i = Inr arcs" and
        rec: "inference csp a1 (enqueue_neighbors x_i x_j arcs queue) = Inr (a', r)"
        by (auto split: sum.splits)
      from "2.IH"(1)[OF rv refl \<open>rev\<close> d False n rec] sz show ?thesis by simp
    qed
  qed
qed

lemma min_key_in: "min_key key first rest \<in> set (first # rest)"
proof -
  have "fold (\<lambda>item best. if key item < key best then item else best) rest b \<in> set (b # rest)"
    for b
    by (induction rest arbitrary: b) (auto split: if_splits)
  then show ?thesis by (simp add: min_key_def)
qed

lemma select_unassigned_variable_Some:
  assumes "select_unassigned_variable assignment = Some variable"
  shows "\<exists>values. map_of assignment variable = Some values \<and> 1 < length values"
proof -
  let ?un = "map fst (filter (\<lambda>item. length (snd item) > 1) (dict_items assignment))"
  from assms obtain first rest where un: "?un = first # rest"
    and v: "variable = min_key (\<lambda>key. case map_of assignment key of
                                   None \<Rightarrow> 0 | Some values \<Rightarrow> length values) first rest"
    by (auto simp: select_unassigned_variable_def split: list.splits)
  from v min_key_in have "variable \<in> set (first # rest)" by metis
  with un have "variable \<in> set ?un" by simp
  then obtain vals where
    "(variable, vals) \<in> set (AList.clearjunk assignment)" "1 < length vals"
    by (auto simp: dict_items_def)
  then have "map_of (AList.clearjunk assignment) variable = Some vals"
    by (simp add: map_of_eq_Some_iff)
  with \<open>1 < length vals\<close> show ?thesis by (auto simp: map_of_clearjunk)
qed

lemma assignment_size_items [simp]: "assignment_size (dict_items a) = assignment_size a"
  by (simp add: assignment_size_def dict_values_def dict_items_def clearjunk_idem)

lemma map_of_items [simp]: "map_of (dict_items a) = map_of a"
  by (simp add: dict_items_def map_of_clearjunk)

lemma assignment_size_branch:
  assumes "map_of a v = Some vals"
  shows "assignment_size (AList.update v [x] (dict_items a)) + length vals = assignment_size a + 1"
  using assignment_size_update[of "dict_items a" v vals "[x]"] assms by simp

lemma sum_length_update_Cons:
  "sum_list (map (length \<circ> snd) (AList.update k (x # l) d))
     = sum_list (map (length \<circ> snd) (AList.update k l d)) + 1"
  by (induction d) auto

lemma assignment_size_update_Cons:
  "assignment_size (AList.update k (x # l) d) = assignment_size (AList.update k l d) + 1"
  using sum_length_update_Cons[of k x l "AList.clearjunk d"]
  by (simp add: assignment_size_def dict_values_def dict_items_def clearjunk_update comp_def)

lemma branch_size:
  assumes "select_unassigned_variable a = Some v" and "dict_get a v = Inr b"
  shows "2 * assignment_size (AList.update v [] (dict_items a)) + 3 < 2 * assignment_size a"
proof -
  from select_unassigned_variable_Some[OF assms(1)] obtain vals where
    v: "map_of a v = Some vals" "1 < length vals" by auto
  from assignment_size_update[of "dict_items a" v vals "[]"] v
  have "assignment_size (AList.update v [] (dict_items a)) + length vals = assignment_size a"
    by simp
  with v show ?thesis by simp
qed

lemma inference_branch_size:
  assumes "inference csp (AList.update v [x] (dict_items a)) q = Inr (a', ok)"
  shows "2 * assignment_size a' < 2 * assignment_size (AList.update v [] (dict_items a)) + 3"
  using inference_size[OF assms] by (simp add: assignment_size_update_Cons)

definition backtrack_no_variable ::
    "'a CSP \<Rightarrow> 'a assignment \<Rightarrow> py_error + ('a CSP \<times> 'a assignment option)" where
  "backtrack_no_variable csp assignment =
     (if list_ex (\<lambda>values. values = []) (dict_values assignment)
      then Inr (csp\<lparr>backtrack_failure_count := backtrack_failure_count csp + 1\<rparr>, None)
      else Inr (csp, Some assignment))"

function backtrack ::
    "'a CSP \<Rightarrow> 'a assignment \<Rightarrow> py_error + ('a CSP \<times> 'a assignment option)"
  and backtrack_values ::
    "'a CSP \<Rightarrow> 'a assignment \<Rightarrow> var \<Rightarrow> 'a list \<Rightarrow> py_error + ('a CSP \<times> 'a assignment option)"
  where
  "backtrack csp assignment =
     (let csp1 = csp\<lparr>backtrack_count := backtrack_count csp + 1\<rparr>
      in case select_unassigned_variable assignment of
           None \<Rightarrow> backtrack_no_variable csp1 assignment
         | Some variable \<Rightarrow>
             if variable = [] then backtrack_no_variable csp1 assignment
             else (case dict_get assignment variable of
                     Inl e \<Rightarrow> Inl e
                   | Inr values \<Rightarrow> backtrack_values csp1 assignment variable values))"
| "backtrack_values csp assignment variable [] =
     Inr (csp\<lparr>backtrack_failure_count := backtrack_failure_count csp + 1\<rparr>, None)"
| "backtrack_values csp assignment variable (value # rest) =
     (let copy = AList.update variable [value] (dict_items assignment)
      in case get_all_neighboring_arcs csp variable of
           Inl e \<Rightarrow> Inl e
         | Inr neighbours \<Rightarrow>
             (case inference csp copy neighbours of
                Inl e \<Rightarrow> Inl e
              | Inr (copy', ok) \<Rightarrow>
                  if ok then
                    (case backtrack csp copy' of
                       Inl e \<Rightarrow> Inl e
                     | Inr (csp', result) \<Rightarrow>
                         if result \<noteq> None \<and> result \<noteq> Some []
                         then Inr (csp', result)
                         else backtrack_values csp' assignment variable rest)
                  else backtrack_values csp assignment variable rest))"
  by pat_completeness auto

termination
proof (relation "measures
    [\<lambda>c. case c of Inl (csp, a) \<Rightarrow> 2 * assignment_size a
               | Inr (csp, a, v, vals) \<Rightarrow> 2 * assignment_size (AList.update v [] (dict_items a)) + 3,
     \<lambda>c. case c of Inl (csp, a) \<Rightarrow> 0 | Inr (csp, a, v, vals) \<Rightarrow> length vals]",
    goal_cases)
  case 1
  show ?case by simp
next
  case (2 csp assignment x x2 b)
  from branch_size[OF 2(2) 2(4)] show ?case by simp
next
  case (3 csp assignment variable v rest x b ba xa y)
  then have "inference csp (AList.update variable [v] (dict_items assignment)) b
               = Inr (xa, y)" by simp
  from inference_branch_size[OF this] show ?case by simp
next
  case 4
  then show ?case by simp
next
  case 5
  then show ?case by simp
qed

definition backtracking_search ::
    "'a CSP \<Rightarrow> py_error + ('a CSP \<times> 'a assignment option)" where
  "backtracking_search csp =
     (let assignment = dict_items (domains csp)
      in case inference csp assignment (get_all_arcs csp) of
           Inl e \<Rightarrow> Inl e
         | Inr (assignment', _) \<Rightarrow> backtrack csp assignment')"

section \<open>Notions of the specification\<close>

text \<open>
  The constraint table stored for an ordered pair, a graph whose tables are mirrored (each
  stored table has the table of the opposite direction with the pair components swapped),
  total assignments of one value of the static domain to every variable, and what it means
  for them and for working assignments to respect the tables.
\<close>

definition table :: "'a CSP \<Rightarrow> var \<Rightarrow> var \<Rightarrow> ('a \<times> 'a) list option" where
  "table csp i j = (case map_of (constraints csp) i of None \<Rightarrow> None | Some c_i \<Rightarrow> map_of c_i j)"

definition mirrored :: "'a CSP \<Rightarrow> bool" where
  "mirrored csp =
     list_all (\<lambda>(i, j). case (table csp i j, table csp j i) of
                           (Some t, Some t') \<Rightarrow> set t' = (\<lambda>(x, y). (y, x)) ` set t
                         | _ \<Rightarrow> False)
              (get_all_arcs csp)"

fun total_assignments :: "(var \<times> 'a list) list \<Rightarrow> (var \<times> 'a) list list" where
  "total_assignments [] = [[]]"
| "total_assignments ((v, d) # rest) =
     concat (map (\<lambda>x. map (\<lambda>s. (v, x) # s) (total_assignments rest)) d)"

definition legal :: "'a CSP \<Rightarrow> (var \<times> 'a) list \<Rightarrow> bool" where
  "legal csp s =
     list_all (\<lambda>(i, j). case (map_of s i, map_of s j, table csp i j) of
                           (Some x, Some y, Some t) \<Rightarrow> (x, y) \<in> set t
                         | _ \<Rightarrow> False)
              (get_all_arcs csp)"

definition satisfiable :: "'a CSP \<Rightarrow> bool" where
  "satisfiable csp = list_ex (legal csp) (total_assignments (dict_items (domains csp)))"

definition valid_solution :: "'a CSP \<Rightarrow> 'a assignment \<Rightarrow> bool" where
  "valid_solution csp a =
     list_all (\<lambda>(i, j). case (map_of a i, map_of a j, table csp i j) of
                           (Some [x], Some [y], Some t) \<Rightarrow> (x, y) \<in> set t
                         | _ \<Rightarrow> False)
              (get_all_arcs csp)"

definition arc_consistent :: "'a CSP \<Rightarrow> 'a assignment \<Rightarrow> bool" where
  "arc_consistent csp a =
     list_all (\<lambda>(i, j). case (map_of a i, map_of a j, table csp i j) of
                           (Some l_i, Some l_j, Some t) \<Rightarrow>
                              list_all (\<lambda>x. list_ex (\<lambda>y. (x, y) \<in> set t) l_j) l_i
                         | _ \<Rightarrow> False)
              (get_all_arcs csp)"

section \<open>Concrete constraint graphs\<close>

text \<open>
  Scenario 3 of the specification: two variables with the domain \<open>[1]\<close> and a not-equal
  constraint in both directions.
  \<^verbatim>\<open>csp.add_variable('a', [1]); csp.add_variable('b', [1])\<close>,
  \<^verbatim>\<open>csp.add_constraint_one_way('a', 'b', lambda x, y: x != y)\<close> and its mirror.
\<close>

definition csp_same :: "int CSP" where
  "csp_same = \<lparr>variables = [''a'', ''b''], domains = [(''a'', [1]), (''b'', [1])],
     constraints = [(''a'', [(''b'', [])]), (''b'', [(''a'', [])])],
     backtrack_count = 0, backtrack_failure_count = 0\<rparr>"

definition csp_same_half :: "int CSP" where
  "csp_same_half = \<lparr>variables = [''a'', ''b''], domains = [(''a'', [1]), (''b'', [1])],
     constraints = [(''a'', [(''b'', [])]), (''b'', [])],
     backtrack_count = 0, backtrack_failure_count = 0\<rparr>"

lemma csp_same_built:
  "add_constraint_one_way (add_variable (add_variable CSP_init ''a'' [1]) ''b'' [1])
      ''a'' ''b'' (\<lambda>x y. x \<noteq> y) = Inr csp_same_half \<and>
   add_constraint_one_way csp_same_half ''b'' ''a'' (\<lambda>x y. x \<noteq> y) = Inr csp_same"
  by (simp add: add_constraint_one_way_def add_variable_def CSP_init_def dict_get_def
      get_all_possible_pairs_def csp_same_half_def csp_same_def)

text \<open>
  Two variables \<open>a\<close> and \<open>b\<close>, and a predicate added in both directions with the
  arguments in matching order, as \<^verbatim>\<open>create_map_coloring_csp\<close> does.
\<close>

definition two_variables :: "int list \<Rightarrow> int list \<Rightarrow> int CSP" where
  "two_variables d_a d_b = add_variable (add_variable CSP_init ''a'' d_a) ''b'' d_b"

definition constrain_both_ways :: "int CSP \<Rightarrow> (int \<Rightarrow> int \<Rightarrow> bool) \<Rightarrow> py_error + int CSP" where
  "constrain_both_ways csp p =
     (case add_constraint_one_way csp ''a'' ''b'' p of
        Inl e \<Rightarrow> Inl e
      | Inr csp' \<Rightarrow> add_constraint_one_way csp' ''b'' ''a'' (\<lambda>x y. p y x))"

definition csp_unsat :: "int CSP" where
  "csp_unsat = \<lparr>variables = [''a'', ''b''], domains = [(''a'', [1, 2]), (''b'', [1, 2])],
     constraints = [(''a'', [(''b'', [])]), (''b'', [(''a'', [])])],
     backtrack_count = 0, backtrack_failure_count = 0\<rparr>"

lemma csp_unsat_built:
  "constrain_both_ways (two_variables [1, 2] [1, 2]) (\<lambda>x y. x + y = 5) = Inr csp_unsat"
  by (simp add: constrain_both_ways_def two_variables_def add_constraint_one_way_def
      add_variable_def CSP_init_def dict_get_def get_all_possible_pairs_def csp_unsat_def)

definition csp_six :: "int CSP" where
  "csp_six = \<lparr>variables = [''a'', ''b''], domains = [(''a'', [1, 2, 3]), (''b'', [1, 2, 3])],
     constraints = [(''a'', [(''b'', [(3, 3)])]), (''b'', [(''a'', [(3, 3)])])],
     backtrack_count = 0, backtrack_failure_count = 0\<rparr>"

lemma csp_six_built:
  "constrain_both_ways (two_variables [1, 2, 3] [1, 2, 3]) (\<lambda>x y. x + y = 6) = Inr csp_six"
  by (simp add: constrain_both_ways_def two_variables_def add_constraint_one_way_def
      add_variable_def CSP_init_def dict_get_def get_all_possible_pairs_def csp_six_def)

definition csp_succ :: "int CSP" where
  "csp_succ = \<lparr>variables = [''a'', ''b''], domains = [(''a'', [1, 2, 3]), (''b'', [4])],
     constraints = [(''a'', [(''b'', [(3, 4)])]), (''b'', [(''a'', [(4, 3)])])],
     backtrack_count = 0, backtrack_failure_count = 0\<rparr>"

lemma csp_succ_built:
  "constrain_both_ways (two_variables [1, 2, 3] [4]) (\<lambda>x y. x + 1 = y) = Inr csp_succ"
  by (simp add: constrain_both_ways_def two_variables_def add_constraint_one_way_def
      add_variable_def CSP_init_def dict_get_def get_all_possible_pairs_def csp_succ_def)

definition csp_empty_name :: "int CSP" where
  "csp_empty_name = \<lparr>variables = [''''], domains = [('''', [1, 2])],
     constraints = [('''', [])],
     backtrack_count = 0, backtrack_failure_count = 0\<rparr>"

lemma csp_empty_name_built: "add_variable CSP_init '''' [1, 2] = csp_empty_name"
  by (simp add: add_variable_def CSP_init_def csp_empty_name_def)

text \<open>
  One variable with a constraint on itself:
  \<^verbatim>\<open>csp.add_variable('a', [1, 2])\<close>,
  \<^verbatim>\<open>csp.add_constraint_one_way('a', 'a', lambda x, y: x * y == 4)\<close>.
\<close>

definition csp_self :: "int CSP" where
  "csp_self = \<lparr>variables = [''a''], domains = [(''a'', [1, 2])],
     constraints = [(''a'', [(''a'', [(2, 2)])])],
     backtrack_count = 0, backtrack_failure_count = 0\<rparr>"

lemma csp_self_built:
  "add_constraint_one_way (add_variable CSP_init ''a'' [1, 2]) ''a'' ''a'' (\<lambda>x y. x * y = 4)
     = Inr csp_self"
  by (simp add: add_constraint_one_way_def add_variable_def CSP_init_def dict_get_def
      get_all_possible_pairs_def csp_self_def)

section \<open>Auxiliary facts\<close>

lemma subseq_remove1: "subseq (remove1 x xs) xs"
  by (induction xs) auto

lemma subseq_set: "subseq xs ys \<Longrightarrow> set xs \<subseteq> set ys"
  by (induction rule: list_emb.induct) auto

lemma remove1_Nil: "remove1 x xs = [] \<Longrightarrow> x \<in> set xs \<Longrightarrow> xs = [x]"
  by (cases xs) (auto split: if_splits)

lemma pairs_supported:
  "(\<exists>pair \<in> set (get_all_possible_pairs [x] l). pair \<in> set t) \<longleftrightarrow> (\<exists>y \<in> set l. (x, y) \<in> set t)"
  by (auto simp: get_all_possible_pairs_def)

lemma revise_loop_subseq:
  "revise_loop c s li lj k r = (li', r') \<Longrightarrow> subseq li' li"
proof (induction c s li lj k r rule: revise_loop.induct)
  case (1 c s li lj k r)
  show ?case
  proof (cases "k < length li")
    case False
    with "1.prems" show ?thesis by simp
  next
    case True
    note k = True
    let ?x = "li ! k"
    let ?pairs = "get_all_possible_pairs [?x] (if s then li else lj)"
    show ?thesis
    proof (cases "\<exists>pair \<in> set ?pairs. pair \<in> set c")
      case True
      with k "1.prems" have "revise_loop c s li lj (k + 1) r = (li', r')"
        by (simp add: Let_def)
      from "1.IH"(1)[OF k refl refl True this] show ?thesis .
    next
      case False
      note unsup = False
      show ?thesis
      proof (cases "remove1 ?x li = []")
        case True
        with k unsup "1.prems" have "li' = []"
          by (simp add: Let_def)
        then show ?thesis by simp
      next
        case False
        with k unsup "1.prems"
        have "revise_loop c s (remove1 ?x li) lj (k + 1) True = (li', r')"
          by (simp add: Let_def)
        from "1.IH"(2)[OF k refl refl unsup refl False this]
        have "subseq li' (remove1 ?x li)" .
        then show ?thesis by (rule subseq_order.order_trans[OF _ subseq_remove1])
      qed
    qed
  qed
qed

text \<open>
  The rounds of the loop of \<^verbatim>\<open>revise\<close>. Every round but one that empties the list is a
  recursive call of \<open>revise_loop\<close>, so the call relation \<open>revise_loop_rel\<close> that the
  definition generates relates the state after a round to the state before it: the table, the
  aliasing flag, the list of \<open>i\<close> as it is then, the list of \<open>j\<close>, the index and the flag.
  \<open>revise_round\<close> holds of the states that the loop started on \<open>d_i\<close> and \<open>d_j\<close> runs
  through. A state is a last round when no call follows it: the index has passed the end of
  the list, or the round empties the list and returns.
\<close>

definition revise_round ::
    "('a \<times> 'a) list \<Rightarrow> bool \<Rightarrow> 'a list \<Rightarrow> 'a list \<Rightarrow> 'a list \<Rightarrow> nat \<Rightarrow> bool \<Rightarrow> bool" where
  "revise_round t same d_i d_j l k revised \<longleftrightarrow>
     revise_loop_rel\<^sup>*\<^sup>* (t, same, l, d_j, k, revised) (t, same, d_i, d_j, 0, False)"

definition revise_last_round ::
    "('a \<times> 'a) list \<Rightarrow> bool \<Rightarrow> 'a list \<Rightarrow> 'a list \<Rightarrow> nat \<Rightarrow> bool \<Rightarrow> bool" where
  "revise_last_round t same l d_j k revised \<longleftrightarrow>
     (\<forall>l' k' revised'. \<not> revise_loop_rel (t, same, l', d_j, k', revised') (t, same, l, d_j, k, revised))"

lemma revise_loop_rel_step:
  assumes "revise_loop_rel (t', same', l', d_j', k', r') (t, same, l, d_j, k, r)"
  shows "t' = t \<and> same' = same \<and> d_j' = d_j \<and> k' = k + 1 \<and> k < length l \<and>
         (if (\<exists>y \<in> set (if same then l else d_j). (l ! k, y) \<in> set t)
          then l' = l \<and> r' = r
          else l' = remove1 (l ! k) l \<and> l' \<noteq> [] \<and> r')"
  using assms
  by (cases rule: revise_loop_rel.cases) (auto simp: pairs_supported)


lemma revise_loop_removed_round:
  "revise_loop c s li lj k r = (li', r') \<Longrightarrow> count (mset li') x < count (mset li) x \<Longrightarrow>
     \<exists>l k' r''. revise_loop_rel\<^sup>*\<^sup>* (c, s, l, lj, k', r'') (c, s, li, lj, k, r) \<and>
        k' < length l \<and> x = l ! k' \<and> (\<forall>y \<in> set (if s then l else lj). (x, y) \<notin> set c)"
proof (induction c s li lj k r rule: revise_loop.induct)
  case (1 c s li lj k r)
  show ?case
  proof (cases "k < length li")
    case False
    with "1.prems" show ?thesis by simp
  next
    case True
    note k = True
    let ?x = "li ! k"
    let ?cur = "if s then li else lj"
    let ?pairs = "get_all_possible_pairs [?x] ?cur"
    have xin: "?x \<in> set li" using k by simp
    show ?thesis
    proof (cases "\<exists>pair \<in> set ?pairs. pair \<in> set c")
      case True
      with k "1.prems" have "revise_loop c s li lj (k + 1) r = (li', r')"
        by (simp add: Let_def)
      from "1.IH"(1)[OF k refl refl True this "1.prems"(2)]
      obtain l k' r'' where
        reach: "revise_loop_rel\<^sup>*\<^sup>* (c, s, l, lj, k', r'') (c, s, li, lj, k + 1, r)" and
        rest: "k' < length l \<and> x = l ! k' \<and> (\<forall>y \<in> set (if s then l else lj). (x, y) \<notin> set c)"
        by blast
      have "revise_loop_rel (c, s, li, lj, k + 1, r) (c, s, li, lj, k, r)"
        by (rule revise_loop_rel.intros(1)[OF k refl refl True])
      with reach have "revise_loop_rel\<^sup>*\<^sup>* (c, s, l, lj, k', r'') (c, s, li, lj, k, r)"
        by (rule rtranclp.rtrancl_into_rtrancl)
      with rest show ?thesis by blast
    next
      case False
      note unsup = False
      then have nosup: "\<forall>y \<in> set ?cur. (?x, y) \<notin> set c"
        using pairs_supported[of ?x ?cur c] by blast
      show ?thesis
      proof (cases "x = ?x")
        case True
        have "revise_loop_rel\<^sup>*\<^sup>* (c, s, li, lj, k, r) (c, s, li, lj, k, r)" by simp
        with k nosup True show ?thesis by blast
      next
        case False
        note other = False
        then have cnt: "count (mset (remove1 ?x li)) x = count (mset li) x" by simp
        show ?thesis
        proof (cases "remove1 ?x li = []")
          case True
          from remove1_Nil[OF True xin] obtain z where z: "li = [z]" by blast
          have "count (mset li) x \<noteq> 0" using "1.prems"(2) by linarith
          then have "x \<in> set li" by (simp add: count_mset_0_iff)
          with z k have "x = ?x" by simp
          with other show ?thesis by simp
        next
          case False
          with k unsup "1.prems"
          have loop: "revise_loop c s (remove1 ?x li) lj (k + 1) True = (li', r')"
            by (simp add: Let_def)
          from "1.prems"(2) cnt have "count (mset li') x < count (mset (remove1 ?x li)) x"
            by simp
          from "1.IH"(2)[OF k refl refl unsup refl False loop this]
          obtain l k' r'' where
            reach: "revise_loop_rel\<^sup>*\<^sup>* (c, s, l, lj, k', r'')
                      (c, s, remove1 ?x li, lj, k + 1, True)" and
            rest: "k' < length l \<and> x = l ! k' \<and>
                     (\<forall>y \<in> set (if s then l else lj). (x, y) \<notin> set c)"
            by blast
          have "revise_loop_rel (c, s, remove1 ?x li, lj, k + 1, True) (c, s, li, lj, k, r)"
            by (rule revise_loop_rel.intros(2)[OF k refl refl unsup refl False])
          with reach have "revise_loop_rel\<^sup>*\<^sup>* (c, s, l, lj, k', r'') (c, s, li, lj, k, r)"
            by (rule rtranclp.rtrancl_into_rtrancl)
          with rest show ?thesis by blast
        qed
      qed
    qed
  qed
qed

lemma revise_loop_last_round:
  assumes last: "revise_last_round t same l d_j k r"
    and cnt: "count (mset (fst (revise_loop t same l d_j k r))) x < count (mset l) x"
  shows "k < length l \<and> x = l ! k \<and> fst (revise_loop t same l d_j k r) = [] \<and>
         (\<forall>y \<in> set (if same then l else d_j). (x, y) \<notin> set t)"
proof (cases "k < length l")
  case False
  with cnt show ?thesis by simp
next
  case True
  note k = True
  let ?x = "l ! k"
  let ?cur = "if same then l else d_j"
  let ?pairs = "get_all_possible_pairs [?x] ?cur"
  have xin: "?x \<in> set l" using k by simp
  have unsup: "\<not> (\<exists>pair \<in> set ?pairs. pair \<in> set t)"
  proof
    assume "\<exists>pair \<in> set ?pairs. pair \<in> set t"
    from revise_loop_rel.intros(1)[OF k refl refl this]
    have "revise_loop_rel (t, same, l, d_j, k + 1, r) (t, same, l, d_j, k, r)" .
    with last show False unfolding revise_last_round_def by blast
  qed
  then have nosup: "\<forall>y \<in> set ?cur. (?x, y) \<notin> set t"
    using pairs_supported[of ?x ?cur t] by blast
  have empty: "remove1 ?x l = []"
  proof (rule ccontr)
    assume "remove1 ?x l \<noteq> []"
    from revise_loop_rel.intros(2)[OF k refl refl unsup refl this]
    have "revise_loop_rel (t, same, remove1 ?x l, d_j, k + 1, True) (t, same, l, d_j, k, r)" .
    with last show False unfolding revise_last_round_def by blast
  qed
  with k unsup have res: "fst (revise_loop t same l d_j k r) = []" by (simp add: Let_def)
  from remove1_Nil[OF empty xin] obtain z where z: "l = [z]" by blast
  have "count (mset l) x \<noteq> 0" using cnt by linarith
  then have "x \<in> set l" by (simp add: count_mset_0_iff)
  with z k have "x = ?x" by simp
  with k res nosup show ?thesis by simp
qed

lemma revise_loop_round_removes:
  assumes step: "revise_loop_rel (t, same, l', d_j, k', r') (t, same, l, d_j, k, r)"
    and cnt: "count (mset l') x < count (mset l) x"
  shows "k < length l \<and> x = l ! k \<and> l' = remove1 x l \<and>
         (\<forall>y \<in> set (if same then l else d_j). (x, y) \<notin> set t)"
proof -
  note s = revise_loop_rel_step[OF step]
  show ?thesis
  proof (cases "\<exists>y \<in> set (if same then l else d_j). (l ! k, y) \<in> set t")
    case True
    with s have "l' = l" by simp
    with cnt show ?thesis by simp
  next
    case False
    with s have l': "l' = remove1 (l ! k) l" and k: "k < length l" by simp_all
    have "x = l ! k"
    proof (rule ccontr)
      assume "x \<noteq> l ! k"
      then have "count (mset (remove1 (l ! k) l)) x = count (mset l) x" by simp
      with cnt l' show False by simp
    qed
    with False l' k show ?thesis by simp
  qed
qed

lemma self_round:
  "revise_loop_rel ([(2, 2)], True, [2], [1, 2], 1, True)
     ([(2::int, 2::int)], True, [1, 2], [1, 2], 0, False)"
proof -
  have "revise_loop_rel ([(2::int, 2::int)], True, remove1 ([1, 2] ! 0) [1, 2], [1, 2], 0 + 1, True)
          ([(2, 2)], True, [1, 2], [1, 2], 0, False)"
    by (rule revise_loop_rel.intros(2)[OF _ refl refl _ refl])
       (simp_all add: get_all_possible_pairs_def)
  then show ?thesis by simp
qed

lemma same_last_round: "revise_last_round [] False [1::int] [1::int] 0 False"
  unfolding revise_last_round_def
proof (intro allI notI)
  fix l' k' r'
  assume "revise_loop_rel ([], False, l', [1::int], k', r') ([], False, [1::int], [1], 0, False)"
  from revise_loop_rel_step[OF this] show False by auto
qed

text \<open>
  Only the two counters of the solver object change during a search. The equation of
  \<open>backtrack\<close> is unfolded by hand, never by the simplifier.
\<close>

declare backtrack.simps [simp del]








text \<open>
  A graph with a table from \<open>a\<close> to \<open>b\<close> and none from \<open>b\<close> to \<open>a\<close>:
  \<^verbatim>\<open>csp.add_constraint_one_way('a', 'b', lambda x, y: x != y)\<close> alone.
\<close>

definition csp_one_way :: "int CSP" where
  "csp_one_way = \<lparr>variables = [''a'', ''b''], domains = [(''a'', [1, 2]), (''b'', [1, 2])],
     constraints = [(''a'', [(''b'', [(1, 2), (2, 1)])]), (''b'', [])],
     backtrack_count = 0, backtrack_failure_count = 0\<rparr>"

lemma csp_one_way_built:
  "add_constraint_one_way (two_variables [1, 2] [1, 2]) ''a'' ''b'' (\<lambda>x y. x \<noteq> y)
     = Inr csp_one_way"
  by (simp add: two_variables_def add_constraint_one_way_def
      add_variable_def CSP_init_def dict_get_def get_all_possible_pairs_def csp_one_way_def)

lemma set_dict_keys: "set (dict_keys d) = dom (map_of d)"
proof -
  have "set (dict_keys d) = set (map fst d)"
    by (simp only: dict_keys_def dict_items_def clearjunk_keys_set)
  also have "\<dots> = dom (map_of d)"
    by (simp add: dom_map_of_conv_image_fst)
  finally show ?thesis .
qed

lemma distinct_dict_keys: "distinct (dict_keys d)"
  by (simp add: dict_keys_def dict_items_def)

lemma in_get_all_arcs: "(i, j) \<in> set (get_all_arcs csp) \<longleftrightarrow> table csp i j \<noteq> None"
proof (cases "map_of (constraints csp) i")
  case None
  then have "i \<notin> set (dict_keys (constraints csp))" by (simp add: set_dict_keys domIff)
  with None show ?thesis by (auto simp: get_all_arcs_def table_def)
next
  case (Some c_i)
  then have "i \<in> set (dict_keys (constraints csp))" by (auto simp: set_dict_keys)
  with Some show ?thesis
    by (auto simp: get_all_arcs_def table_def set_dict_keys image_iff)
qed

lemma mirrored_table:
  assumes "mirrored csp" and "table csp i j \<noteq> None"
  shows "table csp j i \<noteq> None"
proof -
  from assms(2) have "(i, j) \<in> set (get_all_arcs csp)" by (simp add: in_get_all_arcs)
  with assms(1) show ?thesis
    by (auto simp: mirrored_def list_all_iff split: option.splits)
qed

text \<open>
  Every chain of recursive calls is finite: the domain predicates of the three recursive
  functions hold everywhere, by the measures of their termination proofs.
\<close>

lemma revise_loop_total: "All revise_loop_dom"
  by (relation "measure (\<lambda>(c, s, li, lj, k, r). length li - k)")
     (auto simp: length_remove1)

lemma inference_total: "All inference_dom"
proof (relation "measures [\<lambda>(csp, a, q). assignment_size a, \<lambda>(csp, a, q). length q]",
       goal_cases)
  case 1
  show ?case by simp
next
  case (2 csp assignment x_i x_j queue b x y ba bb)
  then have "revise csp assignment x_i x_j = Inr (x, True)" by simp
  from revise_size[OF this] show ?case by simp
next
  case (3 csp assignment x_i x_j queue b x y)
  then have "revise csp assignment x_i x_j = Inr (x, y)" by simp
  from revise_size[OF this] show ?case by auto
qed

lemma backtrack_total: "All backtrack_backtrack_values_dom"
proof (relation "measures
    [\<lambda>c. case c of Inl (csp, a) \<Rightarrow> 2 * assignment_size a
               | Inr (csp, a, v, vals) \<Rightarrow>
                   2 * assignment_size (AList.update v [] (dict_items a)) + 3,
     \<lambda>c. case c of Inl (csp, a) \<Rightarrow> 0 | Inr (csp, a, v, vals) \<Rightarrow> length vals]",
    goal_cases)
  case 1
  show ?case by simp
next
  case (2 csp assignment x x2 b)
  from branch_size[OF 2(2) 2(4)] show ?case by simp
next
  case (3 csp assignment variable v rest x b ba xa y)
  then have "inference csp (AList.update variable [v] (dict_items assignment)) b
               = Inr (xa, y)" by simp
  from inference_branch_size[OF this] show ?case by simp
next
  case 4
  then show ?case by simp
next
  case 5
  then show ?case by simp
qed

text \<open>
  Working domains only shrink. One assignment is \<open>within\<close> another when both have the same
  variables in the same order and every list of the first is a subsequence of the list the
  second holds for that variable.
\<close>

definition within :: "'a assignment \<Rightarrow> 'a assignment \<Rightarrow> bool" where
  "within a b \<longleftrightarrow>
     dict_keys a = dict_keys b \<and>
     list_all (\<lambda>(k, l). case map_of b k of None \<Rightarrow> False | Some m \<Rightarrow> subseq l m)
              (dict_items a)"

lemma in_dict_items: "(k, l) \<in> set (dict_items a) \<longleftrightarrow> map_of a k = Some l"
proof -
  have "map_of (AList.clearjunk a) k = Some l \<longleftrightarrow> (k, l) \<in> set (AList.clearjunk a)"
    by (rule map_of_eq_Some_iff) (rule distinct_clearjunk)
  then show ?thesis by (simp add: dict_items_def map_of_clearjunk)
qed

lemma within_iff:
  "within a b \<longleftrightarrow>
     dict_keys a = dict_keys b \<and>
     (\<forall>k l. map_of a k = Some l \<longrightarrow> (\<exists>m. map_of b k = Some m \<and> subseq l m))"
proof -
  have "list_all (\<lambda>(k, l). case map_of b k of None \<Rightarrow> False | Some m \<Rightarrow> subseq l m)
          (dict_items a)
        \<longleftrightarrow> (\<forall>k l. (k, l) \<in> set (dict_items a) \<longrightarrow>
               (\<exists>m. map_of b k = Some m \<and> subseq l m))"
    by (fastforce simp: list_all_iff split: option.splits)
  then show ?thesis by (simp add: within_def in_dict_items)
qed

lemma within_refl: "within a a"
  by (simp add: within_iff)

lemma within_trans: "within a b \<Longrightarrow> within b c \<Longrightarrow> within a c"
  unfolding within_iff
  by (metis subseq_order.order_trans)

lemma dict_keys_items [simp]: "dict_keys (dict_items a) = dict_keys a"
  by (simp add: dict_keys_def dict_items_def clearjunk_idem)

lemma within_items: "within (dict_items a) a"
  by (simp add: within_iff)

lemma dict_keys_update:
  assumes "map_of a k = Some l"
  shows "dict_keys (AList.update k l' a) = dict_keys a"
proof -
  from assms have "k \<in> dom (map_of a)" by blast
  then have "k \<in> set (map fst a)"
    by (simp add: dom_map_of_conv_image_fst)
  then have "k \<in> set (map fst (AList.clearjunk a))"
    by (simp only: clearjunk_keys_set)
  then show ?thesis
    by (simp add: dict_keys_def dict_items_def clearjunk_update update_keys del: set_map)
qed

lemma within_update:
  assumes "map_of a k = Some l" and "subseq l' l"
  shows "within (AList.update k l' a) a"
  unfolding within_iff
  using assms dict_keys_update[OF assms(1)] by (auto simp: update_conv')

lemma within_branch:
  assumes "map_of a v = Some l" and "x \<in> set l"
  shows "within (AList.update v [x] (dict_items a)) a"
proof -
  from assms(2) have "subseq [x] l" by (simp add: subseq_singleton_left)
  with assms(1) have "within (AList.update v [x] (dict_items a)) (dict_items a)"
    by (intro within_update) simp_all
  then show ?thesis using within_items by (rule within_trans)
qed

lemma revise_within:
  assumes "revise csp a i j = Inr (a', r)"
  shows "within a' a"
proof -
  from assms obtain tbl li lj li' where
    li: "map_of a i = Some li" and
    loop: "revise_loop tbl (i = j) li lj 0 False = (li', r)" and
    a': "a' = AList.update i li' a"
    by (auto simp: revise_def dict_get_def split: option.splits sum.splits prod.splits)
  from revise_loop_subseq[OF loop] li a' show ?thesis by (simp add: within_update)
qed

lemma inference_within:
  "inference csp a q = Inr (a', r) \<Longrightarrow> within a' a"
proof (induction csp a q arbitrary: a' r rule: inference.induct)
  case (1 csp assignment)
  then show ?case by (simp add: within_refl)
next
  case (2 csp assignment x_i x_j queue)
  from "2.prems" obtain a1 rev where
    rv: "revise csp assignment x_i x_j = Inr (a1, rev)"
    by (auto split: sum.splits)
  note w = revise_within[OF rv]
  show ?case
  proof (cases rev)
    case False
    with "2.prems" rv have "inference csp a1 queue = Inr (a', r)" by simp
    from "2.IH"(2)[OF rv refl False this] w show ?thesis by (rule within_trans)
  next
    case True
    with "2.prems" rv obtain d_i where
      d: "dict_get (domains csp) x_i = Inr d_i"
      by (auto split: sum.splits)
    show ?thesis
    proof (cases "d_i = []")
      case True
      with "2.prems" rv \<open>rev\<close> d have "a' = a1" by simp
      with w show ?thesis by simp
    next
      case False
      with "2.prems" rv \<open>rev\<close> d obtain arcs where
        n: "get_all_neighboring_arcs csp x_i = Inr arcs" and
        rec: "inference csp a1 (enqueue_neighbors x_i x_j arcs queue) = Inr (a', r)"
        by (auto split: sum.splits)
      from "2.IH"(1)[OF rv refl \<open>rev\<close> d False n rec] w show ?thesis by (rule within_trans)
    qed
  qed
qed

text \<open>
  The assignments that occur in a run. The call relation of a recursive function relates
  the arguments of a recursive call to the arguments of the call that makes it; its
  reflexive transitive closure reaches every state of a run. \<open>inference_round csp a q a'\<close>:
  the loop of \<open>inference csp a q\<close> reaches a round at which the assignment is \<open>a'\<close> (the
  assignment handed to \<open>revise\<close> in that round). \<open>backtrack_call csp a csp' a'\<close>: the call
  \<open>backtrack csp a\<close> leads, at any depth, to the call \<open>backtrack csp' a'\<close>.
  \<open>backtrack_branch csp a csp' a' v x\<close>: it leads to the round of the value loop, in the
  activation on \<open>a'\<close>, that tries the value \<open>x\<close> for the variable \<open>v\<close> and hands the copy
  \<open>AList.update v [x] (dict_items a')\<close> to \<open>inference\<close>.
\<close>

definition inference_round ::
    "'a CSP \<Rightarrow> 'a assignment \<Rightarrow> arc list \<Rightarrow> 'a assignment \<Rightarrow> bool" where
  "inference_round csp a q a' \<longleftrightarrow> (\<exists>q'. inference_rel\<^sup>*\<^sup>* (csp, a', q') (csp, a, q))"

definition backtrack_call ::
    "'a CSP \<Rightarrow> 'a assignment \<Rightarrow> 'a CSP \<Rightarrow> 'a assignment \<Rightarrow> bool" where
  "backtrack_call csp a csp' a' \<longleftrightarrow>
     backtrack_backtrack_values_rel\<^sup>*\<^sup>* (Inl (csp', a')) (Inl (csp, a))"

definition backtrack_branch ::
    "'a CSP \<Rightarrow> 'a assignment \<Rightarrow> 'a CSP \<Rightarrow> 'a assignment \<Rightarrow> var \<Rightarrow> 'a \<Rightarrow> bool" where
  "backtrack_branch csp a csp' a' v x \<longleftrightarrow>
     (\<exists>rest. backtrack_backtrack_values_rel\<^sup>*\<^sup>* (Inr (csp', a', v, x # rest)) (Inl (csp, a)))"

lemma inference_rel_within:
  assumes "inference_rel y z"
  shows "within (fst (snd y)) (fst (snd z))"
  using assms
proof (cases rule: inference_rel.cases)
  case (1 csp assignment x_i x_j queue b x r ba bb)
  then have "revise csp assignment x_i x_j = Inr (x, r)" by simp
  from revise_within[OF this] 1 show ?thesis by simp
next
  case (2 csp assignment x_i x_j queue b x r)
  then have "revise csp assignment x_i x_j = Inr (x, r)" by simp
  from revise_within[OF this] 2 show ?thesis by simp
qed

lemma inference_chain_within:
  assumes "inference_rel\<^sup>*\<^sup>* y z"
  shows "within (fst (snd y)) (fst (snd z))"
  using assms
proof (induction rule: converse_rtranclp_induct)
  case base
  show ?case by (rule within_refl)
next
  case (step y z)
  from inference_rel_within[OF step(1)] step(3) show ?case by (rule within_trans)
qed

lemma inference_round_within: "inference_round csp a q a' \<Longrightarrow> within a' a"
  unfolding inference_round_def using inference_chain_within by fastforce

definition reached_ok ::
    "'a assignment \<Rightarrow> ('a CSP \<times> 'a assignment + 'a CSP \<times> 'a assignment \<times> var \<times> 'a list) \<Rightarrow> bool"
  where
  "reached_ok a0 c =
     (case c of
        Inl (csp, a) \<Rightarrow> within a a0
      | Inr (csp, a, v, vals) \<Rightarrow>
          within a a0 \<and> (\<exists>l. map_of a v = Some l \<and> set vals \<subseteq> set l))"

lemma backtrack_rel_ok:
  assumes "backtrack_backtrack_values_rel y z" and "reached_ok a0 z"
  shows "reached_ok a0 y"
  using assms(1)
proof (cases rule: backtrack_backtrack_values_rel.cases)
  case (1 csp assignment x x2 b)
  from 1(6) have "map_of assignment x2 = Some b"
    by (simp add: dict_get_def split: option.splits)
  with 1 assms(2) show ?thesis by (auto simp: reached_ok_def)
next
  case (2 csp assignment variable v rest x b ba xa r)
  from 2 assms(2) obtain l where
    w: "within assignment a0" and l: "map_of assignment variable = Some l" "v \<in> set l"
    by (auto simp: reached_ok_def)
  from 2 have "inference csp (AList.update variable [v] (dict_items assignment)) b = Inr (xa, r)"
    by simp
  from inference_within[OF this] within_branch[OF l]
  have "within xa assignment" by (rule within_trans)
  then have "within xa a0" using w by (rule within_trans)
  with 2 show ?thesis by (simp add: reached_ok_def)
next
  case (3 csp assignment variable v rest x b ba xa r bb xb ya)
  with assms(2) show ?thesis by (auto simp: reached_ok_def)
next
  case (4 csp assignment variable v rest x b ba xa r)
  with assms(2) show ?thesis by (auto simp: reached_ok_def)
qed

lemma backtrack_chain_ok:
  assumes "backtrack_backtrack_values_rel\<^sup>*\<^sup>* y (Inl (csp, a0))"
  shows "reached_ok a0 y"
  using assms
proof (induction rule: converse_rtranclp_induct)
  case base
  show ?case by (simp add: reached_ok_def within_refl)
next
  case (step y z)
  from backtrack_rel_ok[OF step(1) step(3)] show ?case .
qed

lemma backtrack_call_within: "backtrack_call csp a csp' a' \<Longrightarrow> within a' a"
  unfolding backtrack_call_def using backtrack_chain_ok[of "Inl (csp', a')" csp a]
  by (simp add: reached_ok_def)

lemma backtrack_branch_within:
  assumes "backtrack_branch csp a csp' a' v x"
  shows "within (AList.update v [x] (dict_items a')) a'" and "within a' a"
proof -
  from assms obtain rest where
    "backtrack_backtrack_values_rel\<^sup>*\<^sup>* (Inr (csp', a', v, x # rest)) (Inl (csp, a))"
    by (auto simp: backtrack_branch_def)
  from backtrack_chain_ok[OF this] obtain l where
    w: "within a' a" and l: "map_of a' v = Some l" "x \<in> set l"
    by (auto simp: reached_ok_def)
  from within_branch[OF l] show "within (AList.update v [x] (dict_items a')) a'" .
  from w show "within a' a" .
qed

lemma backtrack_result_within:
  "backtrack csp a = Inr (c, Some s) \<Longrightarrow> within s a"
  and "backtrack_values csp a v vals = Inr (c, Some s) \<Longrightarrow>
         map_of a v = Some l \<Longrightarrow> set vals \<subseteq> set l \<Longrightarrow> within s a"
proof (induction csp a and csp a v vals arbitrary: c s and c s l
       rule: backtrack_backtrack_values.induct)
  case (1 csp assignment)
  let ?c1 = "csp\<lparr>backtrack_count := backtrack_count csp + 1\<rparr>"
  have leaf: "within s assignment"
    if "backtrack_no_variable ?c1 assignment = Inr (c, Some s)"
    using that by (auto simp: backtrack_no_variable_def within_refl split: if_splits)
  show ?case
  proof (cases "select_unassigned_variable assignment")
    case None
    with "1.prems" have "backtrack_no_variable ?c1 assignment = Inr (c, Some s)"
      by (simp add: backtrack.simps Let_def)
    then show ?thesis by (rule leaf)
  next
    case (Some variable)
    show ?thesis
    proof (cases "variable = []")
      case True
      with Some "1.prems" have "backtrack_no_variable ?c1 assignment = Inr (c, Some s)"
        by (simp add: backtrack.simps Let_def)
      then show ?thesis by (rule leaf)
    next
      case False
      with Some "1.prems" obtain vals where
        g: "dict_get assignment variable = Inr vals" and
        b: "backtrack_values ?c1 assignment variable vals = Inr (c, Some s)"
        by (auto simp: backtrack.simps Let_def split: sum.splits)
      from g have m: "map_of assignment variable = Some vals"
        by (simp add: dict_get_def split: option.splits)
      from "1.IH"[OF refl Some False g b m] show ?thesis by simp
    qed
  qed
next
  case (2 csp assignment variable)
  then show ?case by simp
next
  case (3 csp assignment variable v rest)
  let ?copy = "AList.update variable [v] (dict_items assignment)"
  from "3.prems"(1) obtain nb copy' ok where
    n: "get_all_neighboring_arcs csp variable = Inr nb" and
    i: "inference csp ?copy nb = Inr (copy', ok)"
    by (auto simp: Let_def split: sum.splits)
  from "3.prems"(3) have v: "v \<in> set l" and rest: "set rest \<subseteq> set l" by simp_all
  show ?case
  proof (cases ok)
    case False
    with "3.prems"(1) n i have "backtrack_values csp assignment variable rest = Inr (c, Some s)"
      by (simp add: Let_def)
    from "3.IH"(3)[OF refl n i refl False this "3.prems"(2) rest] show ?thesis .
  next
    case True
    with "3.prems"(1) n i obtain c1 res where
      b: "backtrack csp copy' = Inr (c1, res)"
      by (auto simp: Let_def split: sum.splits)
    show ?thesis
    proof (cases "res \<noteq> None \<and> res \<noteq> Some []")
      case True
      with "3.prems"(1) n i \<open>ok\<close> b have "c1 = c" "res = Some s" by (simp_all add: Let_def)
      with b have "backtrack csp copy' = Inr (c, Some s)" by simp
      from "3.IH"(1)[OF refl n i refl \<open>ok\<close> this] have "within s copy'" .
      from this inference_within[OF i] have "within s ?copy" by (rule within_trans)
      then show ?thesis using within_branch[OF "3.prems"(2) v] by (rule within_trans)
    next
      case False
      with "3.prems"(1) n i \<open>ok\<close> b
      have "backtrack_values c1 assignment variable rest = Inr (c, Some s)"
        by (auto simp: Let_def)
      from "3.IH"(2)[OF refl n i refl \<open>ok\<close> b refl False this "3.prems"(2) rest]
      show ?thesis .
    qed
  qed
qed

text \<open>The first steps of the search on \<open>csp_six\<close>.\<close>

definition six_start :: "int assignment" where
  "six_start = [(''a'', [1, 2, 3]), (''b'', [1, 2, 3])]"

definition six_round :: "int assignment" where
  "six_round = [(''a'', [2, 3]), (''b'', [1, 2, 3])]"

definition six_pruned :: "int assignment" where
  "six_pruned = [(''a'', [2, 3]), (''b'', [2, 3])]"

definition six_copy :: "int assignment" where
  "six_copy = [(''a'', [2]), (''b'', [2, 3])]"

definition six_result :: "int assignment" where
  "six_result = [(''a'', [2]), (''b'', [3])]"

definition csp_six_1 :: "int CSP" where
  "csp_six_1 = csp_six\<lparr>backtrack_count := backtrack_count csp_six + 1\<rparr>"

lemma six_h0:
  "inference csp_six (dict_items (domains csp_six)) (get_all_arcs csp_six) = Inr (six_pruned, True)"
  by code_simp

lemma six_start_eq: "dict_items (domains csp_six) = six_start"
  by code_simp

lemma six_arcs: "get_all_arcs csp_six = [(''a'', ''b''), (''b'', ''a'')]"
  by code_simp

lemma six_r1: "revise csp_six six_start ''a'' ''b'' = Inr (six_round, True)"
  by code_simp

lemma six_d1: "dict_get (domains csp_six) ''a'' = Inr [1, 2, 3]"
  by code_simp

lemma six_n1: "get_all_neighboring_arcs csp_six ''a'' = Inr [(''b'', ''a'')]"
  by code_simp

lemma six_step1:
  "inference_rel (csp_six, six_round, enqueue_neighbors ''a'' ''b'' [(''b'', ''a'')] [(''b'', ''a'')])
     (csp_six, six_start, [(''a'', ''b''), (''b'', ''a'')])"
proof (rule inference_rel.intros(1)[OF six_r1 refl _ six_d1 _ six_n1])
  show True ..
  show "[1, 2, 3] \<noteq> ([] :: int list)" by (rule list.distinct(2))
qed

lemma six_h1:
  "inference_round csp_six (dict_items (domains csp_six)) (get_all_arcs csp_six) six_round"
  unfolding inference_round_def six_start_eq six_arcs
  by (rule exI, rule r_into_rtranclp, rule six_step1)

lemma six_sel: "select_unassigned_variable six_pruned = Some ''a''"
  by code_simp

lemma six_g: "dict_get six_pruned ''a'' = Inr [2, 3]"
  by code_simp

lemma six_stepA:
  "backtrack_backtrack_values_rel (Inr (csp_six_1, six_pruned, ''a'', [2, 3]))
     (Inl (csp_six, six_pruned))"
proof (rule backtrack_backtrack_values_rel.intros(1)[OF csp_six_1_def six_sel _ six_g])
  show "''a'' \<noteq> []" by (rule list.distinct(2))
qed

lemma six_copy_eq: "AList.update ''a'' [2] (dict_items six_pruned) = six_copy"
  by code_simp

lemma six_n2: "get_all_neighboring_arcs csp_six_1 ''a'' = Inr [(''b'', ''a'')]"
  by code_simp

lemma six_i2: "inference csp_six_1 six_copy [(''b'', ''a'')] = Inr (six_result, True)"
  by code_simp

lemma six_stepB:
  "backtrack_backtrack_values_rel (Inl (csp_six_1, six_result))
     (Inr (csp_six_1, six_pruned, ''a'', [2, 3]))"
proof (rule backtrack_backtrack_values_rel.intros(2)[OF six_copy_eq[symmetric] six_n2 six_i2 refl])
  show True ..
qed

lemma six_h2: "backtrack_call csp_six six_pruned csp_six_1 six_result"
  unfolding backtrack_call_def
  by (rule rtranclp.rtrancl_into_rtrancl
        [OF r_into_rtranclp[where r = backtrack_backtrack_values_rel, OF six_stepB] six_stepA])

lemma six_h3: "backtrack_branch csp_six six_pruned csp_six_1 six_pruned ''a'' 2"
  unfolding backtrack_branch_def
  by (rule exI, rule r_into_rtranclp, rule six_stepA)

lemma six_r4: "revise csp_six_1 six_copy ''b'' ''a'' = Inr (six_result, True)"
  by code_simp

lemma six_d4: "dict_get (domains csp_six_1) ''b'' = Inr [1, 2, 3]"
  by code_simp

lemma six_n4: "get_all_neighboring_arcs csp_six_1 ''b'' = Inr [(''a'', ''b'')]"
  by code_simp

lemma six_step4:
  "inference_rel (csp_six_1, six_result, enqueue_neighbors ''b'' ''a'' [(''a'', ''b'')] [])
     (csp_six_1, six_copy, [(''b'', ''a'')])"
proof (rule inference_rel.intros(1)[OF six_r4 refl _ six_d4 _ six_n4])
  show True ..
  show "[1, 2, 3] \<noteq> ([] :: int list)" by (rule list.distinct(2))
qed

lemma six_h4:
  "inference_round csp_six_1 (AList.update ''a'' [2] (dict_items six_pruned)) [(''b'', ''a'')]
     six_result"
  unfolding inference_round_def six_copy_eq
  by (rule exI, rule r_into_rtranclp, rule six_step4)

lemma six_h5:
  "backtracking_search csp_six = Inr (csp_six\<lparr>backtrack_count := 2\<rparr>, Some six_result)"
  by code_simp

text \<open>
  When no variable has an empty name, every assignment that the search returns holds exactly
  one value for each variable of the graph.
\<close>

definition decided :: "'a assignment \<Rightarrow> bool" where
  "decided a = list_all (\<lambda>l. length l = 1) (dict_values a)"

lemma select_unassigned_variable_None:
  assumes "select_unassigned_variable a = None"
  shows "list_all (\<lambda>l. length l \<le> 1) (dict_values a)"
proof -
  from assms have "filter (\<lambda>item. length (snd item) > 1) (dict_items a) = []"
    by (auto simp: select_unassigned_variable_def split: list.splits)
  then have "\<forall>item \<in> set (dict_items a). \<not> length (snd item) > 1"
    by (simp add: filter_empty_conv)
  then show ?thesis by (auto simp: dict_values_def list_all_iff not_less)
qed

lemma backtrack_no_variable_decided:
  assumes "backtrack_no_variable c1 a = Inr (c, Some s)"
    and "list_all (\<lambda>l. length l \<le> 1) (dict_values a)"
  shows "decided s"
proof -
  from assms(1) have s: "s = a" and ne: "\<not> list_ex (\<lambda>l. l = []) (dict_values a)"
    by (auto simp: backtrack_no_variable_def split: if_splits)
  have "length l = 1" if "l \<in> set (dict_values a)" for l
  proof -
    from that assms(2) have "length l \<le> 1" by (simp add: list_all_iff)
    moreover from that ne have "l \<noteq> []" by (auto simp: list_ex_iff)
    ultimately show ?thesis by (cases l) auto
  qed
  with s show ?thesis by (simp add: decided_def list_all_iff)
qed

lemma backtrack_result_decided:
  "backtrack csp a = Inr (c, Some s) \<Longrightarrow> [] \<notin> set (dict_keys a) \<Longrightarrow> decided s"
  and "backtrack_values csp a v vals = Inr (c, Some s) \<Longrightarrow> [] \<notin> set (dict_keys a) \<Longrightarrow>
         map_of a v = Some l \<Longrightarrow> set vals \<subseteq> set l \<Longrightarrow> decided s"
proof (induction csp a and csp a v vals arbitrary: c s and c s l
       rule: backtrack_backtrack_values.induct)
  case (1 csp assignment)
  let ?c1 = "csp\<lparr>backtrack_count := backtrack_count csp + 1\<rparr>"
  show ?case
  proof (cases "select_unassigned_variable assignment")
    case None
    with "1.prems" have "backtrack_no_variable ?c1 assignment = Inr (c, Some s)"
      by (simp add: backtrack.simps Let_def)
    from backtrack_no_variable_decided[OF this select_unassigned_variable_None[OF None]]
    show ?thesis .
  next
    case (Some variable)
    from select_unassigned_variable_Some[OF Some] obtain vs where
      "map_of assignment variable = Some vs" by auto
    then have "variable \<in> set (dict_keys assignment)" by (auto simp: set_dict_keys)
    with "1.prems"(2) have ne: "variable \<noteq> []" by auto
    with Some "1.prems" obtain vals where
      g: "dict_get assignment variable = Inr vals" and
      b: "backtrack_values ?c1 assignment variable vals = Inr (c, Some s)"
      by (auto simp: backtrack.simps Let_def split: sum.splits)
    from g have m: "map_of assignment variable = Some vals"
      by (simp add: dict_get_def split: option.splits)
    from "1.IH"[OF refl Some ne g b "1.prems"(2) m] show ?thesis by simp
  qed
next
  case (2 csp assignment variable)
  then show ?case by simp
next
  case (3 csp assignment variable v rest)
  let ?copy = "AList.update variable [v] (dict_items assignment)"
  from "3.prems"(1) obtain nb copy' ok where
    n: "get_all_neighboring_arcs csp variable = Inr nb" and
    i: "inference csp ?copy nb = Inr (copy', ok)"
    by (auto simp: Let_def split: sum.splits)
  from "3.prems"(4) have v: "v \<in> set l" and rest: "set rest \<subseteq> set l" by simp_all
  show ?case
  proof (cases ok)
    case False
    with "3.prems"(1) n i have "backtrack_values csp assignment variable rest = Inr (c, Some s)"
      by (simp add: Let_def)
    from "3.IH"(3)[OF refl n i refl False this "3.prems"(2) "3.prems"(3) rest] show ?thesis .
  next
    case True
    with "3.prems"(1) n i obtain c1 res where
      b: "backtrack csp copy' = Inr (c1, res)"
      by (auto simp: Let_def split: sum.splits)
    show ?thesis
    proof (cases "res \<noteq> None \<and> res \<noteq> Some []")
      case True
      with "3.prems"(1) n i \<open>ok\<close> b have "c1 = c" "res = Some s" by (simp_all add: Let_def)
      with b have r: "backtrack csp copy' = Inr (c, Some s)" by simp
      from inference_within[OF i] within_branch[OF "3.prems"(3) v]
      have "within copy' assignment" by (rule within_trans)
      then have "dict_keys copy' = dict_keys assignment" by (simp add: within_def)
      with "3.prems"(2) have "[] \<notin> set (dict_keys copy')" by simp
      from "3.IH"(1)[OF refl n i refl \<open>ok\<close> r this] show ?thesis .
    next
      case False
      with "3.prems"(1) n i \<open>ok\<close> b
      have "backtrack_values c1 assignment variable rest = Inr (c, Some s)"
        by (auto simp: Let_def)
      from "3.IH"(2)[OF refl n i refl \<open>ok\<close> b refl False this "3.prems"(2) "3.prems"(3) rest]
      show ?thesis .
    qed
  qed
qed

lemma search_result_decided:
  assumes "backtracking_search csp = Inr (c, Some s)"
    and "[] \<notin> set (dict_keys (domains csp))"
  shows "decided s \<and> dict_keys s = dict_keys (domains csp)"
proof -
  from assms(1) obtain a1 ok where
    i: "inference csp (dict_items (domains csp)) (get_all_arcs csp) = Inr (a1, ok)" and
    b: "backtrack csp a1 = Inr (c, Some s)"
    by (auto simp: backtracking_search_def Let_def split: sum.splits)
  from inference_within[OF i] within_items have w: "within a1 (domains csp)"
    by (rule within_trans)
  then have k: "dict_keys a1 = dict_keys (domains csp)" by (simp add: within_def)
  with assms(2) have "[] \<notin> set (dict_keys a1)" by simp
  from backtrack_result_decided(1)[OF b this] have "decided s" .
  moreover from backtrack_result_within(1)[OF b] k have "dict_keys s = dict_keys (domains csp)"
    by (simp add: within_def)
  ultimately show ?thesis ..
qed

section \<open>Claims\<close>

text \<open>
  Claim C1. On a finite graph with mirrored constraints, \<open>backtracking_search\<close> returns a
  non-failure result if a satisfying total assignment exists, and the failure value if none
  exists.

  The loop of \<open>revise\<close> removes from the list it iterates over, so that the element
  after each removed one is never examined. On \<open>csp_unsat\<close> (domains \<open>[1, 2]\<close>, no legal
  pair at all) each revision removes \<open>1\<close> and skips \<open>2\<close>; \<open>inference\<close> ends with
  two singleton domains and \<open>backtrack\<close> returns them as a solution.
\<close>

theorem search_accepts_unsatisfiable_graph:
  "mirrored csp_unsat \<and> \<not> satisfiable csp_unsat \<and>
   backtracking_search csp_unsat
     = Inr (csp_unsat\<lparr>backtrack_count := 1\<rparr>, Some [(''a'', [2]), (''b'', [2])])"
  by code_simp

text \<open>
  Claim C2. Whenever \<open>backtracking_search\<close> returns a non-failure assignment, the pair of
  the returned values of \<open>i\<close> and \<open>j\<close> is in the stored table of every arc \<open>(i, j)\<close>.

  On \<open>csp_six\<close> (domains \<open>[1, 2, 3]\<close>, legal pairs those with sum 6, so only \<open>(3, 3)\<close>)
  the search returns \<open>a = 2\<close>, \<open>b = 3\<close>: the values skipped by the loop of
  \<open>revise\<close> are never checked again.
\<close>

theorem search_returns_illegal_pair:
  "backtracking_search csp_six
     = Inr (csp_six\<lparr>backtrack_count := 2\<rparr>, Some [(''a'', [2]), (''b'', [3])]) \<and>
   table csp_six ''a'' ''b'' = Some [(3, 3)] \<and>
   \<not> valid_solution csp_six [(''a'', [2]), (''b'', [3])]"
  by code_simp

text \<open>
  Claim C3. After \<open>inference\<close>, seeded with all arcs of the graph, returns, every value left
  in the working domain of \<open>i\<close> has a value left in the working domain of \<open>j\<close> that forms
  a legal pair with it, for every arc \<open>(i, j)\<close>.

  On \<open>csp_succ\<close> (\<open>a\<close> in \<open>[1, 2, 3]\<close>, \<open>b\<close> in \<open>[4]\<close>, legal when \<open>a + 1 = b\<close>)
  revising \<open>(a, b)\<close> removes \<open>1\<close> and skips \<open>2\<close>, which stays in the working domain of
  \<open>a\<close> without support.
\<close>

theorem inference_leaves_unsupported_value:
  "mirrored csp_succ \<and>
   inference csp_succ (dict_items (domains csp_succ)) (get_all_arcs csp_succ)
     = Inr ([(''a'', [2, 3]), (''b'', [4])], True) \<and>
   table csp_succ ''a'' ''b'' = Some [(3, 4)] \<and>
   \<not> arc_consistent csp_succ [(''a'', [2, 3]), (''b'', [4])]"
  by code_simp

text \<open>
  Claim C4. During \<open>inference\<close>, whenever revising an arc \<open>(i, j)\<close> leaves the working
  domain of \<open>i\<close> empty, \<open>inference\<close> returns false, and it returns true only when the
  queue drains with no working domain left empty.

  The code tests \<^verbatim>\<open>self.domains[x_i]\<close>, the static domain, where its comments speak of
  the revised domain. On \<open>csp_same\<close> the first revision empties the working domain of
  \<open>a\<close>, and \<open>inference\<close> goes on and returns true with both working domains empty.
\<close>

theorem inference_true_with_empty_domains:
  "revise csp_same (dict_items (domains csp_same)) ''a'' ''b''
     = Inr ([(''a'', []), (''b'', [1])], True) \<and>
   inference csp_same (dict_items (domains csp_same)) (get_all_arcs csp_same)
     = Inr ([(''a'', []), (''b'', [])], True)"
  by code_simp

text \<open>
  Claim C5. For every graph and every variable \<open>v\<close>, \<open>get_all_neighboring_arcs v\<close> returns
  exactly the pairs \<open>(k, v)\<close> such that a table from \<open>k\<close> to \<open>v\<close> exists, also on graphs
  whose tables are not mirrored.

  The function lists the keys of \<^verbatim>\<open>self.constraints[var]\<close>, the tables from \<open>var\<close>. On
  \<open>csp_one_way\<close> it returns \<open>(b, a)\<close> for \<open>a\<close> although no table from \<open>b\<close> to \<open>a\<close> is
  stored, and nothing for \<open>b\<close> although the table from \<open>a\<close> to \<open>b\<close> is.
\<close>

theorem neighboring_arcs_counterexample:
  "get_all_neighboring_arcs csp_one_way ''a'' = Inr [(''b'', ''a'')] \<and>
   table csp_one_way ''b'' ''a'' = None \<and>
   get_all_neighboring_arcs csp_one_way ''b'' = Inr [] \<and>
   table csp_one_way ''a'' ''b'' = Some [(1, 2), (2, 1)]"
  by code_simp

text \<open>
  Claim C5, amended. For every graph and every registered variable \<open>v\<close>,
  \<open>get_all_neighboring_arcs v\<close> returns, each once, exactly the pairs \<open>(k, v)\<close> such that a
  table from \<open>v\<close> to \<open>k\<close> exists; on a graph whose tables are mirrored these are exactly
  the pairs \<open>(k, v)\<close> such that a table from \<open>k\<close> to \<open>v\<close> exists.
\<close>

theorem neighboring_arcs_of_mirrored_graph:
  assumes "dict_get (constraints csp) v = Inr c_v"
  shows "\<exists>arcs. get_all_neighboring_arcs csp v = Inr arcs \<and> distinct arcs \<and>
           set arcs = {(k, v) | k. table csp v k \<noteq> None} \<and>
           (mirrored csp \<longrightarrow> set arcs = {(k, v) | k. table csp k v \<noteq> None})"
proof -
  let ?arcs = "map (\<lambda>i. (i, v)) (dict_keys c_v)"
  from assms have c: "map_of (constraints csp) v = Some c_v"
    by (simp add: dict_get_def split: option.splits)
  have r: "get_all_neighboring_arcs csp v = Inr ?arcs"
    using assms by (simp add: get_all_neighboring_arcs_def)
  have d: "distinct ?arcs"
    by (simp add: distinct_map distinct_dict_keys inj_on_def)
  have s: "set ?arcs = {(k, v) | k. table csp v k \<noteq> None}"
    using c by (auto simp: set_dict_keys table_def)
  have m: "set ?arcs = {(k, v) | k. table csp k v \<noteq> None}" if "mirrored csp"
  proof -
    have "table csp v k \<noteq> None \<longleftrightarrow> table csp k v \<noteq> None" for k
      using mirrored_table[OF that, of v k] mirrored_table[OF that, of k v] by (rule iffI)
    with s show ?thesis by simp
  qed
  show ?thesis
  proof (intro exI conjI impI)
    show "get_all_neighboring_arcs csp v = Inr ?arcs" by (rule r)
    show "distinct ?arcs" by (rule d)
    show "set ?arcs = {(k, v) | k. table csp v k \<noteq> None}" by (rule s)
    show "set ?arcs = {(k, v) | k. table csp k v \<noteq> None}" if "mirrored csp"
      using that by (rule m)
  qed
qed

theorem neighboring_arcs_of_mirrored_graph_witness:
  "dict_get (constraints csp_six) ''a'' = Inr [(''b'', [(3, 3)])] \<and> mirrored csp_six \<and>
   (\<exists>arcs. get_all_neighboring_arcs csp_six ''a'' = Inr arcs \<and>
            set arcs = {(k, ''a'') | k. table csp_six k ''a'' \<noteq> None})"
proof -
  have h: "dict_get (constraints csp_six) ''a'' = Inr [(''b'', [(3, 3)])]" by code_simp
  have m: "mirrored csp_six" by code_simp
  from neighboring_arcs_of_mirrored_graph[OF h] obtain arcs where
    a: "get_all_neighboring_arcs csp_six ''a'' = Inr arcs \<and> distinct arcs \<and>
        set arcs = {(k, ''a'') | k. table csp_six ''a'' k \<noteq> None} \<and>
        (mirrored csp_six \<longrightarrow> set arcs = {(k, ''a'') | k. table csp_six k ''a'' \<noteq> None})" ..
  from a have r: "get_all_neighboring_arcs csp_six ''a'' = Inr arcs" by (rule conjunct1)
  from a have "mirrored csp_six \<longrightarrow> set arcs = {(k, ''a'') | k. table csp_six k ''a'' \<noteq> None}"
    by (elim conjE)
  then have s: "set arcs = {(k, ''a'') | k. table csp_six k ''a'' \<noteq> None}"
    using m by (rule mp)
  from r s have "\<exists>arcs. get_all_neighboring_arcs csp_six ''a'' = Inr arcs \<and>
            set arcs = {(k, ''a'') | k. table csp_six k ''a'' \<noteq> None}"
    by (intro exI conjI)
  with h m show ?thesis by (intro conjI)
qed

text \<open>
  Claim C6. \<open>backtracking_search\<close> returns either an assignment in which every variable
  holds exactly one value or the failure value, never an assignment with a variable that
  keeps several candidates or none.

  \<open>backtrack\<close> tests \<^verbatim>\<open>if not variable\<close>, which holds for \<^verbatim>\<open>None\<close> and also for a
  selected variable whose name is falsy, such as the empty string. With one variable of
  that name and the domain \<open>[1, 2]\<close> the search returns the undecided assignment.
\<close>

theorem search_returns_undecided_variable:
  "backtracking_search csp_empty_name
     = Inr (csp_empty_name\<lparr>backtrack_count := 1\<rparr>, Some [('''', [1, 2])])"
  by code_simp

text \<open>
  Claim C7. \<open>revise\<close> removes a value \<open>x\<close> from the working domain of \<open>i\<close> only when, at
  the moment of the check, no value \<open>y\<close> of the current working domain of \<open>j\<close> forms a pair
  \<open>(x, y)\<close> of the stored table of \<open>(i, j)\<close>.

  \<open>revise\<close> runs its loop from index \<open>0\<close> on the lists that the assignment holds for
  \<open>i\<close> and \<open>j\<close>. A round removes \<open>x\<close> when \<open>x\<close> occurs less often in the list of \<open>i\<close>
  after the round than in the list \<open>l\<close> before it. The working domain of \<open>j\<close> at that moment
  is the list of \<open>j\<close> when \<open>i \<noteq> j\<close>, and \<open>l\<close> itself, with \<open>x\<close> still in it, when \<open>i = j\<close>.
  Whatever state a round starts in, if it removes \<open>x\<close> then \<open>x\<close> is the element at the index
  and no value of the working domain of \<open>j\<close> at that moment supports it: this holds of a round
  that is followed by another, and of a last round, whose list afterwards is the one the
  loop returns. Every value that the whole call removes is removed by a round that the call
  runs through.
\<close>

theorem revise_removes_only_unsupported:
  assumes "table csp i j = Some t"
    and "map_of assignment i = Some d_i"
    and "map_of assignment j = Some d_j"
  shows "revise csp assignment i j =
           Inr (AList.update i (fst (revise_loop t (i = j) d_i d_j 0 False)) assignment,
                snd (revise_loop t (i = j) d_i d_j 0 False)) \<and>
         (revise_loop_rel (t, i = j, l', d_j, k', r') (t, i = j, l, d_j, k, r) \<longrightarrow>
            count (mset l') x < count (mset l) x \<longrightarrow>
            k < length l \<and> x = l ! k \<and> l' = remove1 x l \<and>
            (\<forall>y \<in> set (if i = j then l else d_j). (x, y) \<notin> set t)) \<and>
         (revise_last_round t (i = j) l d_j k r \<longrightarrow>
            count (mset (fst (revise_loop t (i = j) l d_j k r))) x < count (mset l) x \<longrightarrow>
            k < length l \<and> x = l ! k \<and> fst (revise_loop t (i = j) l d_j k r) = [] \<and>
            (\<forall>y \<in> set (if i = j then l else d_j). (x, y) \<notin> set t)) \<and>
         (count (mset (fst (revise_loop t (i = j) d_i d_j 0 False))) x < count (mset d_i) x \<longrightarrow>
            (\<exists>l k r. revise_round t (i = j) d_i d_j l k r \<and> k < length l \<and> x = l ! k \<and>
               (\<forall>y \<in> set (if i = j then l else d_j). (x, y) \<notin> set t)))"
proof -
  let ?res = "revise_loop t (i = j) d_i d_j 0 False"
  have 1: "revise csp assignment i j
             = Inr (AList.update i (fst ?res) assignment, snd ?res)"
    using assms
    by (auto simp add: revise_def dict_get_def table_def case_prod_beta
             simp del: revise_loop.simps split: option.splits)
  have 4: "\<exists>l k r. revise_round t (i = j) d_i d_j l k r \<and> k < length l \<and> x = l ! k \<and>
               (\<forall>y \<in> set (if i = j then l else d_j). (x, y) \<notin> set t)"
    if c: "count (mset (fst ?res)) x < count (mset d_i) x"
  proof -
    have "?res = (fst ?res, snd ?res)" by simp
    from revise_loop_removed_round[OF this c] show ?thesis
      unfolding revise_round_def by blast
  qed
  have 2: "revise_loop_rel (t, i = j, l', d_j, k', r') (t, i = j, l, d_j, k, r) \<longrightarrow>
            count (mset l') x < count (mset l) x \<longrightarrow>
            k < length l \<and> x = l ! k \<and> l' = remove1 x l \<and>
            (\<forall>y \<in> set (if i = j then l else d_j). (x, y) \<notin> set t)"
    by (intro impI) (rule revise_loop_round_removes)
  have 3: "revise_last_round t (i = j) l d_j k r \<longrightarrow>
            count (mset (fst (revise_loop t (i = j) l d_j k r))) x < count (mset l) x \<longrightarrow>
            k < length l \<and> x = l ! k \<and> fst (revise_loop t (i = j) l d_j k r) = [] \<and>
            (\<forall>y \<in> set (if i = j then l else d_j). (x, y) \<notin> set t)"
    by (intro impI) (rule revise_loop_last_round)
  from 4 have e4: "count (mset (fst ?res)) x < count (mset d_i) x \<longrightarrow>
            (\<exists>l k r. revise_round t (i = j) d_i d_j l k r \<and> k < length l \<and> x = l ! k \<and>
               (\<forall>y \<in> set (if i = j then l else d_j). (x, y) \<notin> set t))"
    by (rule impI)
  from 1 2 3 e4 show ?thesis by (intro conjI)
qed


theorem revise_removes_only_unsupported_witness:
  "revise csp_self [(''a'', [1, 2])] ''a'' ''a'' = Inr ([(''a'', [2])], True) \<and>
   revise_loop_rel ([(2, 2)], True, [2], [1, 2], 1, True)
     ([(2::int, 2::int)], True, [1, 2], [1, 2], 0, False) \<and>
   count (mset [2]) (1::int) < count (mset [1, 2]) 1 \<and>
   (1::int, 1::int) \<notin> set [(2, 2)] \<and> (1::int, 2::int) \<notin> set [(2, 2)] \<and>
   revise csp_same [(''a'', [1]), (''b'', [1])] ''a'' ''b''
     = Inr ([(''a'', []), (''b'', [1])], True) \<and>
   revise_last_round [] False [1::int] [1::int] 0 False \<and>
   count (mset (fst (revise_loop [] False [1::int] [1::int] 0 False))) 1 < count (mset [1::int]) 1 \<and>
   fst (revise_loop [] False [1::int] [1::int] 0 False) = []"
proof -
  have t1: "table csp_self ''a'' ''a'' = Some [(2, 2)]" by code_simp
  have a1: "map_of [(''a'', [1::int, 2])] ''a'' = Some [1, 2]" by simp
  note w1 = revise_removes_only_unsupported[OF t1 a1 a1,
              where l' = "[2]" and k' = 1 and r' = True and l = "[1, 2]" and k = 0
                and r = False and x = 1]
  have l1: "revise_loop [(2::int, 2::int)] True [1, 2] [1, 2] 0 False = ([2], True)"
    by code_simp
  have c1: "count (mset [2]) (1::int) < count (mset [1, 2]) 1" by simp
  have r1: "revise csp_self [(''a'', [1, 2])] ''a'' ''a'' = Inr ([(''a'', [2])], True)"
    using conjunct1[OF w1] by (simp add: l1 del: revise_loop.simps)
  have s1: "revise_loop_rel ([(2, 2)], ''a'' = ''a'', [2], [1, 2], 1, True)
     ([(2::int, 2::int)], ''a'' = ''a'', [1, 2], [1, 2], 0, False)"
    using self_round by simp
  have u1: "(1::int, 1::int) \<notin> set [(2, 2)] \<and> (1::int, 2::int) \<notin> set [(2, 2)]"
    using mp[OF mp[OF conjunct1[OF conjunct2[OF w1]] s1] c1] by simp
  have t2: "table csp_same ''a'' ''b'' = Some []" by code_simp
  have a2: "map_of [(''a'', [1::int]), (''b'', [1])] ''a'' = Some [1]" by simp
  have b2: "map_of [(''a'', [1::int]), (''b'', [1])] ''b'' = Some [1]" by simp
  note w2 = revise_removes_only_unsupported[OF t2 a2 b2,
              where l = "[1]" and k = 0 and r = False and x = 1]
  have l2: "revise_loop [] False [1::int] [1::int] 0 False = ([], True)"
    by code_simp
  have r2: "revise csp_same [(''a'', [1]), (''b'', [1])] ''a'' ''b''
     = Inr ([(''a'', []), (''b'', [1])], True)"
    using conjunct1[OF w2] by (simp add: l2 del: revise_loop.simps)
  have s2: "revise_last_round [] (''a'' = ''b'') [1::int] [1::int] 0 False"
    using same_last_round by simp
  have c2: "count (mset (fst (revise_loop [] False [1::int] [1::int] 0 False))) 1
              < count (mset [1::int]) 1"
    by (simp add: l2 del: revise_loop.simps)
  have c2': "count (mset (fst (revise_loop [] (''a'' = ''b'') [1::int] [1::int] 0 False))) 1
              < count (mset [1::int]) 1"
    using c2 by (simp del: revise_loop.simps)
  have e2: "fst (revise_loop [] False [1::int] [1::int] 0 False) = []"
    using mp[OF mp[OF conjunct1[OF conjunct2[OF conjunct2[OF w2]]] s2] c2']
    by (simp del: revise_loop.simps)
  note u1a = conjunct1[OF u1] and u1b = conjunct2[OF u1]
  from r1 self_round c1 u1a u1b r2 same_last_round c2 e2 show ?thesis by (intro conjI)
qed

text \<open>
  Claim C8. Throughout a call of \<open>backtracking_search\<close>, every working domain of every
  assignment passed to \<open>backtrack\<close>, \<open>inference\<close> or \<open>revise\<close> is a subsequence of the
  static domain of its variable, and within one chain of \<open>inference\<close> and \<open>backtrack\<close> calls
  each working domain only shrinks.

  \<open>backtracking_search\<close> copies the static domains, runs \<open>inference\<close> on the copy with all
  arcs, and calls \<open>backtrack\<close> on the assignment \<open>a1\<close> that leaves. Every round of that first
  \<open>inference\<close>, every call of \<open>backtrack\<close> that follows, every round of an \<open>inference\<close>
  called on the copy made for a candidate value, and the assignment returned at the end are
  within the static domains, and each is within the assignment its chain started from.
\<close>

theorem working_domains_shrink:
  assumes "inference csp (dict_items (domains csp)) (get_all_arcs csp) = Inr (a1, ok1)"
  shows "(inference_round csp (dict_items (domains csp)) (get_all_arcs csp) a \<longrightarrow>
            within a (domains csp)) \<and>
         (backtrack_call csp a1 c a \<longrightarrow> within a a1 \<and> within a (domains csp)) \<and>
         (backtrack_branch csp a1 c a v x \<longrightarrow>
            inference_round c (AList.update v [x] (dict_items a)) q a' \<longrightarrow>
            within a' a \<and> within a' (domains csp)) \<and>
         (backtracking_search csp = Inr (c', Some s) \<longrightarrow> within s (domains csp))"
proof -
  have d: "within (dict_items (domains csp)) (domains csp)" by (rule within_items)
  from inference_within[OF assms] d have a1: "within a1 (domains csp)" by (rule within_trans)
  have 1: "within a (domains csp)"
    if "inference_round csp (dict_items (domains csp)) (get_all_arcs csp) a"
    using inference_round_within[OF that] d by (rule within_trans)
  have 2: "within a a1 \<and> within a (domains csp)" if "backtrack_call csp a1 c a"
  proof -
    from backtrack_call_within[OF that] have "within a a1" .
    moreover from this a1 have "within a (domains csp)" by (rule within_trans)
    ultimately show ?thesis ..
  qed
  have 3: "within a' a \<and> within a' (domains csp)"
    if b: "backtrack_branch csp a1 c a v x"
      and r: "inference_round c (AList.update v [x] (dict_items a)) q a'"
  proof -
    from inference_round_within[OF r] backtrack_branch_within(1)[OF b]
    have "within a' a" by (rule within_trans)
    moreover from this backtrack_branch_within(2)[OF b] have "within a' a1"
      by (rule within_trans)
    then have "within a' (domains csp)" using a1 by (rule within_trans)
    ultimately show ?thesis ..
  qed
  have 4: "within s (domains csp)" if "backtracking_search csp = Inr (c', Some s)"
  proof -
    from that assms have "backtrack csp a1 = Inr (c', Some s)"
      by (simp add: backtracking_search_def Let_def)
    from backtrack_result_within(1)[OF this] a1 show ?thesis by (rule within_trans)
  qed
  from 1 2 3 4 show ?thesis by blast
qed

theorem working_domains_shrink_witness:
  "inference csp_six (dict_items (domains csp_six)) (get_all_arcs csp_six)
     = Inr (six_pruned, True) \<and>
   inference_round csp_six (dict_items (domains csp_six)) (get_all_arcs csp_six) six_round \<and>
   within six_round (domains csp_six) \<and>
   backtrack_call csp_six six_pruned csp_six_1 six_result \<and>
   (within six_result six_pruned \<and> within six_result (domains csp_six)) \<and>
   backtrack_branch csp_six six_pruned csp_six_1 six_pruned ''a'' 2 \<and>
   inference_round csp_six_1 (AList.update ''a'' [2] (dict_items six_pruned)) [(''b'', ''a'')]
     six_result \<and>
   (within six_result six_pruned \<and> within six_result (domains csp_six)) \<and>
   backtracking_search csp_six = Inr (csp_six\<lparr>backtrack_count := 2\<rparr>, Some six_result) \<and>
   within six_result (domains csp_six)"
proof -
  note t = working_domains_shrink[OF six_h0]
  have t1: "within six_round (domains csp_six)"
    by (rule mp[OF conjunct1[OF t[where a = six_round]] six_h1])
  have t2: "within six_result six_pruned \<and> within six_result (domains csp_six)"
    by (rule mp[OF conjunct1[OF conjunct2[OF t[where c = csp_six_1 and a = six_result]]]
                  six_h2])
  have t3: "within six_result six_pruned \<and> within six_result (domains csp_six)"
    by (rule mp[OF mp[OF conjunct1[OF conjunct2[OF conjunct2[OF
                  t[where c = csp_six_1 and a = six_pruned and v = "''a''" and x = 2
                      and q = "[(''b'', ''a'')]" and a' = six_result]]]] six_h3] six_h4])
  have t4: "within six_result (domains csp_six)"
    by (rule mp[OF conjunct2[OF conjunct2[OF conjunct2[OF
                  t[where c' = "csp_six\<lparr>backtrack_count := 2\<rparr>" and s = six_result]]]]
                  six_h5])
  note t2a = conjunct1[OF t2] and t2b = conjunct2[OF t2]
    and t3a = conjunct1[OF t3] and t3b = conjunct2[OF t3]
  from six_h0 six_h1 t1 six_h2 t2a t2b six_h3 six_h4 t3a t3b six_h5 t4 show ?thesis
    by (intro conjI)
qed

text \<open>
  Claim C9. For every finite graph, every working assignment and every finite initial queue,
  \<open>inference\<close> terminates (its loop, which enqueues neighbouring arcs again, cannot run
  forever), and \<open>backtrack\<close> and \<open>backtracking_search\<close> terminate.

  The domain predicate of a recursive function holds at an input when every chain of
  recursive calls (loop rounds) that starts there is finite. It holds at every input of the
  index loop of \<open>revise\<close>, of the queue loop of \<open>inference\<close> and of \<open>backtrack\<close> with its
  loop over the candidate values; \<open>backtracking_search\<close> is one call of \<open>inference\<close>
  followed by one of \<open>backtrack\<close>. A round of \<open>inference\<close> either shortens the queue or
  removes a value from the working assignment; each branch of \<open>backtrack\<close> replaces a list
  of at least two values by a single one.
\<close>

theorem search_terminates:
  "revise_loop_dom (t, same, l_i, l_j, k, revised) \<and>
   inference_dom (csp, assignment, queue) \<and>
   backtrack_backtrack_values_dom (Inl (csp, assignment)) \<and>
   backtrack_backtrack_values_dom (Inr (csp, assignment, variable, vals))"
  using revise_loop_total inference_total backtrack_total by (intro conjI) (rule spec, assumption)+



end
